theory Spec2Isabelle
  imports Main
begin

unbundle bit_operations_syntax

section \<open>Errors and results\<close>

text \<open>
  The Python source raises \<open>ValueError\<close> on a violated positivity
  precondition and \<open>RuntimeError\<close> when a bounded scan is exhausted (or on
  the unreachable digit branch of the router). Every function that can raise
  returns \<open>error + int\<close>, with \<open>Inl\<close> the exception.
\<close>

datatype error = ValueError | RuntimeError

section \<open>Basic number-theoretic tools\<close>

text \<open>
  Python's \<open>int.bit_length()\<close>: the number of bits of the absolute value,
  0 for 0.
\<close>

function bit_length :: "int \<Rightarrow> nat" where
  "bit_length x = (if x = 0 then 0 else Suc (bit_length (\<bar>x\<bar> div 2)))"
  by pat_completeness auto
termination
  by (relation "measure (\<lambda>x. nat \<bar>x\<bar>)") auto

declare bit_length.simps [simp del]

text \<open>\<open>nu2(n)\<close>: raises for \<open>n \<le> 0\<close>, else \<open>(n & -n).bit_length() - 1\<close>.\<close>

definition nu2 :: "int \<Rightarrow> error + int" where
  "nu2 n = (if n \<le> 0 then Inl ValueError
            else Inr (int (bit_length (n AND (- n))) - 1))"

text \<open>\<open>odd_part(n) = n >> nu2(n)\<close>; the exception of \<open>nu2\<close> propagates.\<close>

definition odd_part :: "int \<Rightarrow> error + int" where
  "odd_part n = (case nu2 n of Inl e \<Rightarrow> Inl e
                 | Inr k \<Rightarrow> Inr (drop_bit (nat k) n))"

definition in_residue_set_mod20 :: "int \<Rightarrow> int set \<Rightarrow> bool" where
  "in_residue_set_mod20 n residues = (n mod 20 \<in> residues)"

section \<open>Primitive Collatz map\<close>

definition T :: "int \<Rightarrow> int" where
  "T n = (if n mod 2 = 0 then n div 2 else 3 * n + 1)"

section \<open>Exit maps and macro maps\<close>

definition E0_exit :: "int \<Rightarrow> error + int" where
  "E0_exit n =
     (if n mod 10 \<noteq> 0 then Inr (n div 2)
      else (let k = n div 10 in
            case odd_part k of Inl e \<Rightarrow> Inl e | Inr r \<Rightarrow> Inr (5 * r)))"

definition E8_exit :: "int \<Rightarrow> error + int" where
  "E8_exit n =
     (if (n - 18) mod 20 \<noteq> 0 then Inr (n div 2)
      else (let m = (n + 2) div 20 in
            case nu2 m of Inl e \<Rightarrow> Inl e
            | Inr a \<Rightarrow>
               (case odd_part m of Inl e \<Rightarrow> Inl e
                | Inr r \<Rightarrow> Inr ((10 * 3 ^ nat (a + 1) * r - 2) div 2))))"

definition F6_macro :: "int \<Rightarrow> error + int" where
  "F6_macro n = (let u = 3 * n + 2 in
                 case odd_part u of Inl e \<Rightarrow> Inl e | Inr r \<Rightarrow> Inr (3 * r + 1))"

definition C6 :: "int set" where
  "C6 = {0, 3, 5, 6}"

text \<open>
  The \<open>for _ in range(B)\<close> loop of \<open>E6_exit\<close>: the counter is the number of
  iterations left, the result is the value of \<open>fk\<close> when the loop ends.
\<close>

fun E6_loop :: "nat \<Rightarrow> int \<Rightarrow> error + int" where
  "E6_loop 0 fk = Inr fk"
| "E6_loop (Suc b) fk =
     (if \<not> in_residue_set_mod20 fk C6 then Inr fk
      else (case F6_macro fk of Inl e \<Rightarrow> Inl e | Inr fk' \<Rightarrow> E6_loop b fk'))"

definition E6_exit :: "int \<Rightarrow> error + int" where
  "E6_exit n =
     (if \<not> in_residue_set_mod20 n C6 then Inr (n div 2)
      else (let u0 = 3 * n + 2; B = bit_length u0 in
            case E6_loop B n of Inl e \<Rightarrow> Inl e | Inr fk \<Rightarrow> Inr (fk div 2)))"

definition F4_macro :: "int \<Rightarrow> error + int" where
  "F4_macro n =
     (case odd_part n of Inl e \<Rightarrow> Inl e
      | Inr a \<Rightarrow>
         (case odd_part (3 * a + 1) of Inl e \<Rightarrow> Inl e
          | Inr b \<Rightarrow>
             (case odd_part (3 * b + 1) of Inl e \<Rightarrow> Inl e
              | Inr c \<Rightarrow> Inr (3 * c + 1))))"

definition in_C4_by_last_digit :: "int \<Rightarrow> bool" where
  "in_C4_by_last_digit x = (if x = 1 then False else x mod 10 \<in> {1, 2, 4, 7})"

text \<open>
  The \<open>for r in range(1, t + 1)\<close> loop of the micro-step checker: \<open>r\<close> is the
  current shift, the counter the number of shifts left.
\<close>

fun micro_scan :: "int \<Rightarrow> nat \<Rightarrow> nat \<Rightarrow> int option" where
  "micro_scan a r 0 = None"
| "micro_scan a r (Suc k) =
     (let cand = drop_bit r a in
      if \<not> in_C4_by_last_digit cand then Some cand
      else micro_scan a (Suc r) k)"

definition micro_step_checker_C4 :: "int \<Rightarrow> error + int option" where
  "micro_step_checker_C4 n =
     (case odd_part n of Inl e \<Rightarrow> Inl e
      | Inr p \<Rightarrow>
         (let a = 3 * p + 1 in
          case nu2 a of Inl e \<Rightarrow> Inl e
          | Inr t \<Rightarrow> Inr (micro_scan a 1 (nat t))))"

text \<open>
  The body of the leave detector from its \<open>while a % 2 == 0\<close> loop on: an
  even \<open>a\<close> that has left the digit cycle is returned, an even \<open>a\<close> inside it
  is halved, an odd \<open>a\<close> goes to the two micro-step checks.
\<close>

function check_macro_from :: "int \<Rightarrow> error + int option" where
  "check_macro_from a =
     (if a mod 2 = 0 then
        (if \<not> in_C4_by_last_digit a then Inr (Some a)
         else check_macro_from (a div 2))
      else (case micro_step_checker_C4 a of Inl e \<Rightarrow> Inl e
            | Inr (Some res) \<Rightarrow> Inr (Some res)
            | Inr None \<Rightarrow> micro_step_checker_C4 (3 * a + 1)))"
  by pat_completeness auto
termination
proof (relation "measure (\<lambda>a. nat \<bar>a\<bar>)")
  show "wf (measure (\<lambda>a. nat \<bar>a\<bar>))" by simp
next
  fix a :: int
  assume "a mod 2 = 0" and "\<not> \<not> in_C4_by_last_digit a"
  then have "a \<noteq> 0" and "a mod 2 = 0"
    by (auto simp: in_C4_by_last_digit_def)
  then have "\<bar>a div 2\<bar> < \<bar>a\<bar>" by presburger
  then show "(a div 2, a) \<in> measure (\<lambda>a. nat \<bar>a\<bar>)" by simp
qed

declare check_macro_from.simps [simp del]

definition check_macro_internal_for_leaving_C4 :: "int \<Rightarrow> error + int option" where
  "check_macro_internal_for_leaving_C4 fk = check_macro_from (fk div 2)"

text \<open>
  The \<open>for _ in range(UB + 1)\<close> loop of \<open>E4_exit\<close>; running out of
  iterations is the \<open>RuntimeError\<close> after the loop.
\<close>

fun E4_loop :: "nat \<Rightarrow> int \<Rightarrow> error + int" where
  "E4_loop 0 fk = Inl RuntimeError"
| "E4_loop (Suc k) fk =
     (case check_macro_internal_for_leaving_C4 fk of Inl e \<Rightarrow> Inl e
      | Inr (Some found) \<Rightarrow> Inr found
      | Inr None \<Rightarrow>
         (case F4_macro fk of Inl e \<Rightarrow> Inl e | Inr fk' \<Rightarrow> E4_loop k fk'))"

text \<open>The cap \<open>UB\<close> as \<open>E4_exit\<close> computes it: \<open>t = 3 * n0 + 2; UB = t.bit_length()\<close>.\<close>

definition E4_UB :: "int \<Rightarrow> nat" where
  "E4_UB n0 = (let t = 3 * n0 + 2 in bit_length t)"

definition E4_exit :: "int \<Rightarrow> error + int" where
  "E4_exit n0 =
     (if n0 \<le> 0 then Inl ValueError
      else E4_loop (E4_UB n0 + 1) n0)"

section \<open>The hub centred at the 4-component\<close>

text \<open>
  \<open>solve_C4_hub\<close> is a \<open>while True\<close> loop: \<open>None\<close> is the run that never
  returns, \<open>Some (Inl e)\<close> an exception, \<open>Some (Inr v)\<close> a returned value.
\<close>

partial_function (option) solve_C4_hub :: "int \<Rightarrow> (error + int) option" where
  "solve_C4_hub n =
     (case E4_exit n of Inl e \<Rightarrow> Some (Inl e)
      | Inr a \<Rightarrow>
         if a = 1 then Some (Inr 1)
         else (case E6_exit a of Inl e \<Rightarrow> Some (Inl e)
               | Inr b \<Rightarrow>
                  (case E8_exit b of Inl e \<Rightarrow> Some (Inl e)
                   | Inr n' \<Rightarrow> solve_C4_hub n')))"

declare solve_C4_hub.simps [code]

section \<open>Top-level reduced solver\<close>

definition prefix_is_even :: "int \<Rightarrow> bool" where
  "prefix_is_even n = ((n div 10) mod 2 = 0)"

text \<open>One pass through the body of the router's \<open>while n >= 10\<close> loop.\<close>

definition router_step :: "int \<Rightarrow> error + int" where
  "router_step n =
     (let d = n mod 10 in
      if d = 0 then E0_exit n
      else if d \<in> {1, 3, 5, 7, 9} then Inr (3 * n + 1)
      else if d = 2 then
        (if prefix_is_even n then Inr ((n div 2) * 3 + 1) else Inr (n div 2))
      else if d = 4 then E4_exit n
      else if d = 6 then E6_exit n
      else if d = 8 then E8_exit n
      else Inl RuntimeError)"

partial_function (option) solve_loop :: "int \<Rightarrow> (error + int) option" where
  "solve_loop n =
     (if n \<ge> 10 then
        (case router_step n of Inl e \<Rightarrow> Some (Inl e)
         | Inr n' \<Rightarrow> solve_loop n')
      else Some (Inr 1))"

declare solve_loop.simps [code]

definition reduced_collatz_solver :: "int \<Rightarrow> (error + int) option" where
  "reduced_collatz_solver n =
     (if n \<le> 0 then Some (Inl ValueError) else solve_loop n)"

section \<open>Values of the two primitives\<close>

text \<open>
  The value \<open>nu2\<close> and \<open>odd_part\<close> return, read off their results (0 where they
  raise); used to state what the functions compute on positive arguments.
\<close>

definition nu2_val :: "int \<Rightarrow> nat" where
  "nu2_val n = (case nu2 n of Inl e \<Rightarrow> 0 | Inr k \<Rightarrow> nat k)"

definition odd_val :: "int \<Rightarrow> int" where
  "odd_val n = (case odd_part n of Inl e \<Rightarrow> 0 | Inr r \<Rightarrow> r)"

section \<open>Iterating the macro map of the 6-component\<close>

text \<open>
  \<open>iter_F6 k x\<close> replaces \<open>x\<close> by \<open>F6_macro\<close> of itself \<open>k\<close> times, as the
  specification words the scan of \<open>E6_exit\<close>; an exception of \<open>F6_macro\<close> stops it.
\<close>

fun iter_F6 :: "nat \<Rightarrow> int \<Rightarrow> error + int" where
  "iter_F6 0 x = Inr x"
| "iter_F6 (Suc k) x = (case F6_macro x of Inl e \<Rightarrow> Inl e | Inr y \<Rightarrow> iter_F6 k y)"

section \<open>Checking descent along the router and along the primitive map\<close>

text \<open>
  \<open>reaches_below k n x\<close> runs the body of the router's loop from \<open>x\<close>, at most \<open>k\<close>
  times, until the value is below \<open>n\<close>; an exception of the body, or \<open>k\<close> passes
  without getting below \<open>n\<close>, give \<open>False\<close>.
\<close>

fun reaches_below :: "nat \<Rightarrow> int \<Rightarrow> int \<Rightarrow> bool" where
  "reaches_below 0 n x = False"
| "reaches_below (Suc k) n x =
     (if x < n then True
      else (case router_step x of Inl e \<Rightarrow> False | Inr x' \<Rightarrow> reaches_below k n x'))"

definition descends :: "int \<Rightarrow> bool" where
  "descends n = (case router_step n of Inl e \<Rightarrow> False | Inr x \<Rightarrow> reaches_below 30 n x)"

text \<open>
  Modelled from the spec: brute-force repeated application of the primitive step \<open>T\<close>
  until the value reaches 1; the result is the value reached. A run that never
  reaches 1 is \<open>None\<close>.
\<close>

partial_function (option) brute_force :: "int \<Rightarrow> int option" where
  "brute_force n = (if n = 1 then Some 1 else brute_force (T n))"

declare brute_force.simps [code]

text \<open>
  \<open>T_below k n x\<close> applies \<open>T\<close> from \<open>x\<close>, at most \<open>k\<close> times, until the value is
  positive and below \<open>n\<close>.
\<close>

fun T_below :: "nat \<Rightarrow> int \<Rightarrow> int \<Rightarrow> bool" where
  "T_below 0 n x = False"
| "T_below (Suc k) n x = (if 1 \<le> x \<and> x < n then True else T_below k n (T x))"

definition T_descends :: "int \<Rightarrow> bool" where
  "T_descends n = T_below 300 n (T n)"

section \<open>The 2-adic valuation and the odd part\<close>

lemma bit_length_pow2: "bit_length (2 ^ k) = Suc k"
proof (induction k)
  case 0
  show ?case by (simp add: bit_length.simps [of 1] bit_length.simps [of 0])
next
  case (Suc k)
  have "bit_length (2 ^ Suc k) = Suc (bit_length (\<bar>2 ^ Suc k\<bar> div 2))"
    by (subst bit_length.simps) simp
  also have "\<bar>2 ^ Suc k :: int\<bar> div 2 = 2 ^ k" by simp
  finally show ?case using Suc by simp
qed

lemma and_neg_odd: "odd (n::int) \<Longrightarrow> n AND - n = 1"
proof -
  assume "odd n"
  then obtain m where n: "n = 2 * m + 1" by (elim oddE)
  have d: "(- n) div 2 = NOT m" unfolding n by (simp add: not_int_def)
  have "n AND - n = of_bool (odd n \<and> odd (- n)) + 2 * ((n div 2) AND ((- n) div 2))"
    by (rule and_int_rec)
  also have "\<dots> = 1" unfolding d using \<open>odd n\<close> by (simp add: n)
  finally show ?thesis .
qed

lemma and_neg_even: "even (n::int) \<Longrightarrow> n AND - n = 2 * ((n div 2) AND - (n div 2))"
proof -
  assume "even n"
  then obtain m where n: "n = 2 * m" by (elim evenE)
  have d: "(- n) div 2 = - m"
  proof -
    have "- n = 2 * (- m)" by (simp add: n)
    then show ?thesis by simp
  qed
  have "n AND - n = of_bool (odd n \<and> odd (- n)) + 2 * ((n div 2) AND ((- n) div 2))"
    by (rule and_int_rec)
  also have "\<dots> = 2 * ((n div 2) AND - (n div 2))" unfolding d by (simp add: n)
  finally show ?thesis .
qed

text \<open>The lowest set bit of a positive integer is the largest power of two dividing it.\<close>

lemma lowest_bit_pos:
  "0 < (n::int) \<Longrightarrow> \<exists>k. n AND - n = 2 ^ k \<and> 2 ^ k dvd n \<and> odd (n div 2 ^ k)"
proof (induction "nat n" arbitrary: n rule: less_induct)
  case less
  show ?case
  proof (cases "odd n")
    case True
    then have "n AND - n = 2 ^ 0" by (simp add: and_neg_odd)
    moreover have "odd (n div 2 ^ 0)" using True by simp
    ultimately show ?thesis by (intro exI [of _ 0]) simp
  next
    case False
    then have "even n" by simp
    then obtain m where n: "n = 2 * m" by (elim evenE)
    with less.prems have m: "0 < m" "nat m < nat n" by auto
    from less.hyps [OF m(2) m(1)] obtain k
      where k: "m AND - m = 2 ^ k" "2 ^ k dvd m" "odd (m div 2 ^ k)" by blast
    have "n AND - n = 2 * (m AND - m)" using and_neg_even [OF \<open>even n\<close>] by (simp add: n)
    then have "n AND - n = 2 ^ Suc k" using k(1) by simp
    moreover have "2 ^ Suc k dvd n" using k(2) by (simp add: n)
    moreover have "n div 2 ^ Suc k = m div 2 ^ k" by (simp add: n)
    ultimately show ?thesis using k(3) by (intro exI [of _ "Suc k"]) simp
  qed
qed


lemma nu2_pos:
  assumes "0 < n"
  shows "nu2 n = Inr (int (nu2_val n))"
    and "n AND - n = 2 ^ nu2_val n"
    and "2 ^ nu2_val n dvd n"
    and "odd (n div 2 ^ nu2_val n)"
proof -
  from lowest_bit_pos [OF assms] obtain k
    where k: "n AND - n = 2 ^ k" "2 ^ k dvd n" "odd (n div 2 ^ k)" by blast
  have "nu2 n = Inr (int k)"
    using assms by (simp add: nu2_def k(1) bit_length_pow2)
  then have v: "nu2_val n = k" by (simp add: nu2_val_def)
  show "nu2 n = Inr (int (nu2_val n))" using \<open>nu2 n = Inr (int k)\<close> v by simp
  show "n AND - n = 2 ^ nu2_val n" "2 ^ nu2_val n dvd n" "odd (n div 2 ^ nu2_val n)"
    using k v by simp_all
qed

lemma odd_part_pos:
  assumes "0 < n"
  shows "odd_part n = Inr (odd_val n)"
    and "odd_val n = n div 2 ^ nu2_val n"
    and "odd (odd_val n)"
    and "n = odd_val n * 2 ^ nu2_val n"
    and "0 < odd_val n"
proof -
  have op: "odd_part n = Inr (n div 2 ^ nu2_val n)"
    by (simp add: odd_part_def nu2_pos(1) [OF assms] drop_bit_eq_div)
  then show v: "odd_val n = n div 2 ^ nu2_val n" by (simp add: odd_val_def)
  show "odd_part n = Inr (odd_val n)" using op v by simp
  show "odd (odd_val n)" using nu2_pos(4) [OF assms] v by simp
  show e: "n = odd_val n * 2 ^ nu2_val n" using nu2_pos(3) [OF assms] v by simp
  show "0 < odd_val n"
  proof (rule ccontr)
    assume "\<not> 0 < odd_val n"
    then have "odd_val n \<le> 0" by simp
    then have "odd_val n * 2 ^ nu2_val n \<le> 0" by (simp add: mult_le_0_iff)
    with e assms show False by simp
  qed
qed

lemma nu2_nonpos: "n \<le> 0 \<Longrightarrow> nu2 n = Inl ValueError"
  by (simp add: nu2_def)

lemma odd_part_nonpos: "n \<le> 0 \<Longrightarrow> odd_part n = Inl ValueError"
  by (simp add: odd_part_def nu2_def)

lemma odd_pow2_not_lt:
  fixes a b :: int
  assumes eq: "a * 2 ^ i = b * 2 ^ j" and od: "odd a"
  shows "\<not> i < j"
proof
  assume "i < j"
  define d where "d = j - Suc i"
  have j: "j = i + Suc d" using \<open>i < j\<close> by (simp add: d_def)
  have "a * 2 ^ i = b * 2 ^ (i + Suc d)" using eq unfolding j .
  also have "\<dots> = (2 * (b * 2 ^ d)) * 2 ^ i" by (simp add: power_add)
  finally have "a * 2 ^ i = (2 * (b * 2 ^ d)) * 2 ^ i" .
  then have "a = 2 * (b * 2 ^ d)" by simp
  then have "even a" by simp
  with od show False by blast
qed

lemma two_adic_unique:
  fixes r r' :: int
  assumes "r * 2 ^ k = r' * 2 ^ k'" "odd r" "odd r'"
  shows "k = k' \<and> r = r'"
proof -
  have "\<not> k < k'" using odd_pow2_not_lt [OF assms(1) assms(2)] .
  moreover have "\<not> k' < k" using odd_pow2_not_lt [OF assms(1) [symmetric] assms(3)] .
  ultimately have kk: "k = k'" by arith
  from assms(1) have "r * 2 ^ k = r' * 2 ^ k" unfolding kk .
  then have "r = r'" by (simp only: mult_cancel_right power_eq_0_iff) simp
  with kk show ?thesis by blast
qed

lemma odd_part_decomp:
  assumes "0 < n" "n = r * 2 ^ k" "odd r"
  shows "nu2_val n = k" "odd_val n = r"
proof -
  have "odd_val n * 2 ^ nu2_val n = r * 2 ^ k"
    using odd_part_pos(4) [OF assms(1)] assms(2) by simp
  from two_adic_unique [OF this odd_part_pos(3) [OF assms(1)] assms(3)]
  show "nu2_val n = k" "odd_val n = r" by simp_all
qed

lemma odd_val_odd: "0 < n \<Longrightarrow> odd n \<Longrightarrow> odd_val n = n"
  using odd_part_decomp(2) [of n n 0] by simp

lemma nu2_val_odd: "0 < n \<Longrightarrow> odd n \<Longrightarrow> nu2_val n = 0"
  using odd_part_decomp(1) [of n n 0] by simp

lemma odd_val_mult_odd:
  assumes "0 < n" "0 < c" "odd c"
  shows "odd_val (c * n) = c * odd_val n" "nu2_val (c * n) = nu2_val n"
proof -
  have pos: "0 < c * n" using assms by simp
  have eq: "c * n = (c * odd_val n) * 2 ^ nu2_val n"
    using odd_part_pos(4) [OF assms(1)] by (simp add: mult.assoc)
  have od: "odd (c * odd_val n)" using assms(3) odd_part_pos(3) [OF assms(1)] by simp
  show "odd_val (c * n) = c * odd_val n" by (rule odd_part_decomp(2) [OF pos eq od])
  show "nu2_val (c * n) = nu2_val n" by (rule odd_part_decomp(1) [OF pos eq od])
qed

section \<open>Claims about the primitives\<close>

text \<open>
  Claim C3: for every positive integer \<open>n\<close>, \<open>nu2\<close> and \<open>odd_part\<close> return
  values \<open>k\<close> and \<open>r\<close> with \<open>n = r * 2 ^ k\<close>, and \<open>r\<close> is odd.
\<close>

theorem odd_part_identity:
  "0 < n \<Longrightarrow>
     \<exists>k r. nu2 n = Inr k \<and> 0 \<le> k \<and> odd_part n = Inr r \<and> n = r * 2 ^ nat k \<and> odd r"
  using nu2_pos(1) [of n] odd_part_pos(1,3,4) [of n] by auto

theorem odd_part_identity_witness:
  "0 < (12::int) \<and>
     (\<exists>k r. nu2 12 = Inr k \<and> 0 \<le> k \<and> odd_part 12 = Inr r \<and> 12 = r * 2 ^ nat k \<and> odd r)"
proof -
  have h: "0 < (12::int)" by simp
  from h odd_part_identity [OF h] show ?thesis by (rule conjI)
qed

text \<open>
  Claim C10: for every integer \<open>n \<le> 0\<close>, \<open>odd_part n\<close> raises \<open>ValueError\<close>
  (the exception of its call to \<open>nu2\<close>).
\<close>

theorem odd_part_nonpositive_raises: "n \<le> 0 \<Longrightarrow> odd_part n = Inl ValueError"
  by (simp add: odd_part_def nu2_def)

theorem odd_part_nonpositive_raises_witness:
  "(-4::int) \<le> 0 \<and> odd_part (-4) = Inl ValueError"
proof -
  have h: "(-4::int) \<le> 0" by simp
  from h odd_part_nonpositive_raises [OF h] show ?thesis by (rule conjI)
qed

text \<open>
  Claim C4: for every positive \<open>n\<close> with \<open>n mod 10 = 0\<close>, \<open>E0_exit n\<close> is
  five times the odd part of \<open>n div 10\<close>, which is also the odd part of \<open>T n\<close>.
\<close>

theorem E0_exit_closed_form:
  assumes "0 < n" "n mod 10 = 0"
  shows "\<exists>r. odd_part (n div 10) = Inr r \<and> E0_exit n = Inr (5 * r)
            \<and> odd_part (T n) = Inr (5 * r)"
proof -
  define k where "k = n div 10"
  have n: "n = 10 * k" using assms(2) unfolding k_def by presburger
  have k: "0 < k" using assms(1) n by simp
  have Tn: "T n = 5 * k" by (simp add: T_def n)
  have 1: "odd_part k = Inr (odd_val k)" by (rule odd_part_pos(1) [OF k])
  have 2: "E0_exit n = Inr (5 * odd_val k)"
    using assms(2) 1 by (simp add: E0_exit_def k_def)
  have "0 < 5 * k" using k by simp
  then have "odd_part (5 * k) = Inr (odd_val (5 * k))" by (rule odd_part_pos(1))
  also have "odd_val (5 * k) = 5 * odd_val k" by (rule odd_val_mult_odd(1) [OF k]) simp_all
  finally have 3: "odd_part (T n) = Inr (5 * odd_val k)" by (simp add: Tn)
  show ?thesis using 1 2 3 by (simp add: k_def)
qed

theorem E0_exit_closed_form_witness:
  "0 < (20::int) \<and> (20::int) mod 10 = 0 \<and>
   (\<exists>r. odd_part (20 div 10) = Inr r \<and> E0_exit 20 = Inr (5 * r)
            \<and> odd_part (T 20) = Inr (5 * r))"
proof -
  have h1: "0 < (20::int)" and h2: "(20::int) mod 10 = 0" by simp_all
  from h1 h2 E0_exit_closed_form [OF h1 h2] show ?thesis by (intro conjI)
qed

section \<open>The exit map of the 8-component\<close>

lemma E8_exit_18_mod:
  assumes "0 < n" "n mod 20 = 18"
  shows "E8_exit n =
           Inr ((10 * 3 ^ (nu2_val ((n + 2) div 20) + 1) * odd_val ((n + 2) div 20) - 2) div 2)"
    and "0 < (n + 2) div 20" and "n = 20 * ((n + 2) div 20) - 2"
proof -
  define m where "m = (n + 2) div 20"
  have c: "(n - 18) mod 20 = 0" using assms(2) by presburger
  show n: "n = 20 * ((n + 2) div 20) - 2" using assms(2) by presburger
  show m: "0 < (n + 2) div 20" using assms by presburger
  have 1: "nu2 m = Inr (int (nu2_val m))" using m unfolding m_def by (rule nu2_pos(1))
  have 2: "odd_part m = Inr (odd_val m)" using m unfolding m_def by (rule odd_part_pos(1))
  have "E8_exit n = Inr ((10 * 3 ^ nat (int (nu2_val m) + 1) * odd_val m - 2) div 2)"
    using c 1 2 by (simp add: E8_exit_def m_def Let_def)
  also have "nat (int (nu2_val m) + 1) = nu2_val m + 1" by simp
  finally show "E8_exit n =
           Inr ((10 * 3 ^ (nu2_val ((n + 2) div 20) + 1) * odd_val ((n + 2) div 20) - 2) div 2)"
    unfolding m_def .
qed

lemma E8_exit_18: "E8_exit 18 = Inr 14"
  by code_simp

text \<open>
  Claim C5: for every positive \<open>n\<close> with \<open>n mod 20 = 18\<close>, written \<open>n = 20 * m - 2\<close>
  with \<open>a\<close> the value of \<open>nu2 m\<close> and \<open>r\<close> the value of \<open>odd_part m\<close>,
  \<open>E8_exit n\<close> is \<open>(10 * 3 ^ (a + 1) * r - 2) div 2\<close>; and \<open>E8_exit 18\<close> is 14.
\<close>

theorem E8_exit_closed_form:
  assumes "0 < n" "n mod 20 = 18"
  shows "(\<exists>m a r. n = 20 * m - 2 \<and> nu2 m = Inr (int a) \<and> odd_part m = Inr r
            \<and> E8_exit n = Inr ((10 * 3 ^ (a + 1) * r - 2) div 2))
         \<and> E8_exit 18 = Inr 14"
proof -
  let ?m = "(n + 2) div 20"
  have "n = 20 * ?m - 2 \<and> nu2 ?m = Inr (int (nu2_val ?m)) \<and> odd_part ?m = Inr (odd_val ?m)
          \<and> E8_exit n = Inr ((10 * 3 ^ (nu2_val ?m + 1) * odd_val ?m - 2) div 2)"
    using E8_exit_18_mod [OF assms] nu2_pos(1) [OF E8_exit_18_mod(2) [OF assms]]
      odd_part_pos(1) [OF E8_exit_18_mod(2) [OF assms]] by blast
  then have "\<exists>m a r. n = 20 * m - 2 \<and> nu2 m = Inr (int a) \<and> odd_part m = Inr r
            \<and> E8_exit n = Inr ((10 * 3 ^ (a + 1) * r - 2) div 2)" by blast
  then show ?thesis using E8_exit_18 by blast
qed

theorem E8_exit_closed_form_witness:
  "0 < (38::int) \<and> (38::int) mod 20 = 18 \<and>
   ((\<exists>m a r. (38::int) = 20 * m - 2 \<and> nu2 m = Inr (int a) \<and> odd_part m = Inr r
            \<and> E8_exit 38 = Inr ((10 * 3 ^ (a + 1) * r - 2) div 2))
         \<and> E8_exit 18 = Inr 14)"
proof -
  have h1: "0 < (38::int)" and h2: "(38::int) mod 20 = 18" by simp_all
  from h1 h2 E8_exit_closed_form [OF h1 h2] show ?thesis by blast
qed

lemma E8_exit_mod10:
  assumes "0 < n" "n mod 10 = 8"
  shows "\<exists>v. E8_exit n = Inr v \<and> v mod 10 = 4"
proof (cases "n mod 20 = 18")
  case False
  with assms(2) have "n mod 20 = 8" by presburger
  then have "(n - 18) mod 20 \<noteq> 0" and "(n div 2) mod 10 = 4" by presburger+
  then show ?thesis by (simp add: E8_exit_def)
next
  case True
  let ?m = "(n + 2) div 20"
  let ?q = "3 ^ (nu2_val ?m + 1) * odd_val ?m"
  have m: "0 < ?m" by (rule E8_exit_18_mod(2) [OF assms(1) True])
  have "odd ?q" using odd_part_pos(3) [OF m] by simp
  then obtain s where s: "?q = 2 * s + 1" by (elim oddE)
  have "(10 * 3 ^ (nu2_val ?m + 1) * odd_val ?m - 2) = 10 * ?q - 2" by (simp only: mult.assoc)
  also have "\<dots> = 2 * (10 * s + 4)" unfolding s by simp
  finally have "(10 * 3 ^ (nu2_val ?m + 1) * odd_val ?m - 2) div 2 = 10 * s + 4" by simp
  moreover have "(10 * s + 4) mod 10 = 4" by presburger
  ultimately show ?thesis using E8_exit_18_mod(1) [OF assms(1) True] by simp
qed

text \<open>
  Claim C9: for every positive \<open>n\<close> with last digit 8, \<open>E8_exit n\<close> returns a value
  with last digit 4, on the halving branch and on the closed-form branch alike.
\<close>

theorem E8_exit_last_digit:
  assumes "0 < n" "n mod 10 = 8"
  shows "\<exists>v. E8_exit n = Inr v \<and> v mod 10 = 4"
  using assms by (rule E8_exit_mod10)

theorem E8_exit_last_digit_witness:
  "0 < (18::int) \<and> (18::int) mod 10 = 8 \<and> (\<exists>v. E8_exit 18 = Inr v \<and> v mod 10 = 4)"
proof -
  have h1: "0 < (18::int)" and h2: "(18::int) mod 10 = 8" by simp_all
  from h1 h2 E8_exit_last_digit [OF h1 h2] show ?thesis by (intro conjI)
qed

section \<open>The macro map and exit map of the 6-component\<close>

lemma F6_macro_nonneg:
  assumes "0 \<le> n"
  shows "F6_macro n = Inr (3 * odd_val (3 * n + 2) + 1)" and "0 < 3 * odd_val (3 * n + 2) + 1"
proof -
  have p: "0 < 3 * n + 2" using assms by simp
  show "F6_macro n = Inr (3 * odd_val (3 * n + 2) + 1)"
    by (simp add: F6_macro_def odd_part_pos(1) [OF p])
  show "0 < 3 * odd_val (3 * n + 2) + 1" using odd_part_pos(5) [OF p] by simp
qed

lemma E6_loop_iter:
  "0 \<le> fk \<Longrightarrow>
   \<exists>k y. k \<le> b \<and> iter_F6 k fk = Inr y \<and> 0 \<le> y
      \<and> (\<forall>i<k. \<exists>z. iter_F6 i fk = Inr z \<and> z mod 20 \<in> C6)
      \<and> (k < b \<longrightarrow> y mod 20 \<notin> C6)
      \<and> E6_loop b fk = Inr y"
proof (induction b arbitrary: fk)
  case 0
  then show ?case by (intro exI [of _ 0] exI [of _ fk]) simp
next
  case (Suc b)
  show ?case
  proof (cases "fk mod 20 \<in> C6")
    case False
    with Suc.prems show ?thesis
      by (intro exI [of _ 0] exI [of _ fk]) (simp add: in_residue_set_mod20_def)
  next
    case True
    define fk' where "fk' = 3 * odd_val (3 * fk + 2) + 1"
    have F: "F6_macro fk = Inr fk'" and pos: "0 \<le> fk'"
      using F6_macro_nonneg [OF Suc.prems] by (simp_all add: fk'_def)
    from Suc.IH [OF pos] obtain k y where
      k: "k \<le> b" "iter_F6 k fk' = Inr y" "0 \<le> y"
         "\<forall>i<k. \<exists>z. iter_F6 i fk' = Inr z \<and> z mod 20 \<in> C6"
         "k < b \<longrightarrow> y mod 20 \<notin> C6" "E6_loop b fk' = Inr y"
      by blast
    have a: "iter_F6 (Suc k) fk = Inr y" using F k(2) by simp
    have b: "\<forall>i<Suc k. \<exists>z. iter_F6 i fk = Inr z \<and> z mod 20 \<in> C6"
    proof (intro allI impI)
      fix i assume "i < Suc k"
      show "\<exists>z. iter_F6 i fk = Inr z \<and> z mod 20 \<in> C6"
      proof (cases i)
        case 0
        then show ?thesis using True by simp
      next
        case (Suc j)
        with \<open>i < Suc k\<close> have "j < k" by simp
        with k(4) show ?thesis using F Suc by simp
      qed
    qed
    have c: "E6_loop (Suc b) fk = Inr y"
      using True F k(6) by (simp add: in_residue_set_mod20_def)
    show ?thesis
      using k(1) a k(3) b k(5) c by (intro exI [of _ "Suc k"] exI [of _ y]) simp
  qed
qed

lemma E6_exit_6: "E6_exit 6 = Inr 8"
  by code_simp

text \<open>
  Claim C6: for positive \<open>n\<close> outside the residue set \<open>{0, 3, 5, 6}\<close> modulo 20,
  \<open>E6_exit n\<close> is \<open>n div 2\<close>; inside it, \<open>E6_exit n\<close> is half of the \<open>k\<close>-fold
  iterate of \<open>F6_macro\<close> on \<open>n\<close>, where all earlier iterates are in the residue set,
  \<open>k\<close> is at most the bit length of \<open>3 * n + 2\<close>, and the \<open>k\<close>-th iterate has left
  the set unless \<open>k\<close> is that bit length; \<open>F6_macro n\<close> is three times the odd part of
  \<open>3 * n + 2\<close> plus one; and \<open>E6_exit 6\<close> is 8.
\<close>

theorem E6_exit_behaviour:
  assumes "0 < n"
  shows "(n mod 20 \<notin> {0, 3, 5, 6} \<longrightarrow> E6_exit n = Inr (n div 2))
       \<and> (n mod 20 \<in> {0, 3, 5, 6} \<longrightarrow>
            (\<exists>k y. k \<le> bit_length (3 * n + 2) \<and> iter_F6 k n = Inr y
               \<and> (\<forall>i<k. \<exists>z. iter_F6 i n = Inr z \<and> z mod 20 \<in> {0, 3, 5, 6})
               \<and> (k < bit_length (3 * n + 2) \<longrightarrow> y mod 20 \<notin> {0, 3, 5, 6})
               \<and> E6_exit n = Inr (y div 2)))
       \<and> (\<exists>r. odd_part (3 * n + 2) = Inr r \<and> F6_macro n = Inr (3 * r + 1))
       \<and> E6_exit 6 = Inr 8"
proof -
  have 1: "n mod 20 \<notin> {0, 3, 5, 6} \<longrightarrow> E6_exit n = Inr (n div 2)"
    by (simp add: E6_exit_def in_residue_set_mod20_def C6_def)
  have 2: "n mod 20 \<in> {0, 3, 5, 6} \<longrightarrow>
            (\<exists>k y. k \<le> bit_length (3 * n + 2) \<and> iter_F6 k n = Inr y
               \<and> (\<forall>i<k. \<exists>z. iter_F6 i n = Inr z \<and> z mod 20 \<in> {0, 3, 5, 6})
               \<and> (k < bit_length (3 * n + 2) \<longrightarrow> y mod 20 \<notin> {0, 3, 5, 6})
               \<and> E6_exit n = Inr (y div 2))"
  proof
    assume in6: "n mod 20 \<in> {0, 3, 5, 6}"
    have "0 \<le> n" using assms by simp
    from E6_loop_iter [OF this, of "bit_length (3 * n + 2)"] obtain k y where
      k: "k \<le> bit_length (3 * n + 2)" "iter_F6 k n = Inr y"
         "\<forall>i<k. \<exists>z. iter_F6 i n = Inr z \<and> z mod 20 \<in> C6"
         "k < bit_length (3 * n + 2) \<longrightarrow> y mod 20 \<notin> C6"
         "E6_loop (bit_length (3 * n + 2)) n = Inr y"
      by blast
    have "E6_exit n = Inr (y div 2)"
      using in6 k(5) by (simp add: E6_exit_def in_residue_set_mod20_def C6_def Let_def)
    with k(1-4) show "\<exists>k y. k \<le> bit_length (3 * n + 2) \<and> iter_F6 k n = Inr y
               \<and> (\<forall>i<k. \<exists>z. iter_F6 i n = Inr z \<and> z mod 20 \<in> {0, 3, 5, 6})
               \<and> (k < bit_length (3 * n + 2) \<longrightarrow> y mod 20 \<notin> {0, 3, 5, 6})
               \<and> E6_exit n = Inr (y div 2)"
      unfolding C6_def by blast
  qed
  have p: "0 < 3 * n + 2" using assms by simp
  have 3: "\<exists>r. odd_part (3 * n + 2) = Inr r \<and> F6_macro n = Inr (3 * r + 1)"
    using odd_part_pos(1) [OF p] by (simp add: F6_macro_def)
  show ?thesis using 1 2 3 E6_exit_6 by blast
qed

theorem E6_exit_behaviour_witness:
  "0 < (6::int) \<and> (6::int) mod 20 \<in> {0, 3, 5, 6}
   \<and> (\<exists>k y. k \<le> bit_length (3 * 6 + 2) \<and> iter_F6 k 6 = Inr y
          \<and> (\<forall>i<k. \<exists>z. iter_F6 i 6 = Inr z \<and> z mod 20 \<in> {0, 3, 5, 6})
          \<and> (k < bit_length (3 * 6 + 2) \<longrightarrow> y mod 20 \<notin> {0, 3, 5, 6})
          \<and> E6_exit 6 = Inr (y div 2))
   \<and> 0 < (7::int) \<and> (7::int) mod 20 \<notin> {0, 3, 5, 6} \<and> E6_exit 7 = Inr (7 div 2)"
proof -
  have h6: "0 < (6::int)" and m6: "(6::int) mod 20 \<in> {0, 3, 5, 6}" by simp_all
  have h7: "0 < (7::int)" and m7: "(7::int) mod 20 \<notin> {0, 3, 5, 6}" by simp_all
  have a: "\<exists>k y. k \<le> bit_length (3 * 6 + 2) \<and> iter_F6 k 6 = Inr y
          \<and> (\<forall>i<k. \<exists>z. iter_F6 i 6 = Inr z \<and> z mod 20 \<in> {0, 3, 5, 6})
          \<and> (k < bit_length (3 * 6 + 2) \<longrightarrow> y mod 20 \<notin> {0, 3, 5, 6})
          \<and> E6_exit 6 = Inr (y div 2)"
    using E6_exit_behaviour [OF h6] m6 by blast
  have b: "E6_exit 7 = Inr (7 div 2)"
    using E6_exit_behaviour [OF h7] m7 by blast
  show ?thesis using h6 m6 a h7 m7 b by blast
qed

section \<open>The scan of the 4-component\<close>

lemma micro_scan_Some:
  "micro_scan a r k = Some c \<Longrightarrow>
     \<not> in_C4_by_last_digit c \<and> (\<exists>j. r \<le> j \<and> j < r + k \<and> c = a div 2 ^ j)"
proof (induction k arbitrary: r)
  case 0
  then show ?case by simp
next
  case (Suc k)
  show ?case
  proof (cases "in_C4_by_last_digit (drop_bit r a)")
    case False
    with Suc.prems have "c = drop_bit r a" by (simp add: Let_def)
    with False show ?thesis by (auto simp: drop_bit_eq_div)
  next
    case True
    with Suc.prems have "micro_scan a (Suc r) k = Some c" by (simp add: Let_def)
    from Suc.IH [OF this] obtain j where
      "\<not> in_C4_by_last_digit c" "Suc r \<le> j" "j < Suc r + k" "c = a div 2 ^ j" by blast
    then show ?thesis by (intro conjI exI [of _ j]) simp_all
  qed
qed

lemma div_pow2_pos:
  fixes a :: int
  assumes "0 < a" "j \<le> nu2_val a"
  shows "0 < a div 2 ^ j"
proof -
  have "(2::int) ^ j dvd 2 ^ nu2_val a" using assms(2) by (rule le_imp_power_dvd)
  then have d: "(2::int) ^ j dvd a" using nu2_pos(3) [OF assms(1)] by (rule dvd_trans)
  then have "(2::int) ^ j \<le> a" using assms(1) by (rule zdvd_imp_le)
  then show ?thesis by (simp add: pos_imp_zdiv_pos_iff)
qed

lemma micro_step_checker_C4_pos:
  assumes "0 < n"
  shows "\<exists>res. micro_step_checker_C4 n = Inr res
           \<and> (\<forall>c. res = Some c \<longrightarrow> \<not> in_C4_by_last_digit c \<and> 0 < c)"
proof -
  define a where "a = 3 * odd_val n + 1"
  have a: "0 < a" using odd_part_pos(5) [OF assms] by (simp add: a_def)
  have eq: "micro_step_checker_C4 n = Inr (micro_scan a 1 (nu2_val a))"
    using odd_part_pos(1) [OF assms] nu2_pos(1) [OF a]
    by (simp add: micro_step_checker_C4_def a_def Let_def)
  have "\<not> in_C4_by_last_digit c \<and> 0 < c" if "micro_scan a 1 (nu2_val a) = Some c" for c
  proof -
    from micro_scan_Some [OF that] obtain j where
      j: "\<not> in_C4_by_last_digit c" "j < 1 + nu2_val a" "c = a div 2 ^ j" by blast
    then have "j \<le> nu2_val a" by simp
    from div_pow2_pos [OF a this] j show ?thesis by simp
  qed
  with eq show ?thesis by blast
qed

lemma check_macro_from_nonneg:
  "0 \<le> a \<Longrightarrow>
     \<exists>res. check_macro_from a = Inr res
       \<and> (\<forall>c. res = Some c \<longrightarrow> \<not> in_C4_by_last_digit c \<and> 0 \<le> c \<and> (0 < a \<longrightarrow> 0 < c))"
proof (induction a rule: check_macro_from.induct)
  case (1 a)
  show ?case
  proof (cases "a mod 2 = 0")
    case True
    show ?thesis
    proof (cases "in_C4_by_last_digit a")
      case False
      with True have "check_macro_from a = Inr (Some a)"
        by (subst check_macro_from.simps) simp
      with False "1.prems" show ?thesis by simp
    next
      case inC4: True
      with True have eq: "check_macro_from a = check_macro_from (a div 2)"
        by (subst check_macro_from.simps) simp
      have "a \<noteq> 0" using inC4 by (auto simp: in_C4_by_last_digit_def)
      with "1.prems" True have h: "0 < a div 2" "0 < a" by presburger+
      then have "0 \<le> a div 2" by simp
      from "1.IH" [OF True _ this] inC4 obtain res where
        "check_macro_from (a div 2) = Inr res"
        "\<forall>c. res = Some c \<longrightarrow> \<not> in_C4_by_last_digit c \<and> 0 \<le> c \<and> (0 < a div 2 \<longrightarrow> 0 < c)"
        by auto
      with eq h show ?thesis by auto
    qed
  next
    case False
    with "1.prems" have pos: "0 < a" "0 < 3 * a + 1" by presburger+
    from micro_step_checker_C4_pos [OF pos(1)] obtain r1 where
      r1: "micro_step_checker_C4 a = Inr r1"
          "\<forall>c. r1 = Some c \<longrightarrow> \<not> in_C4_by_last_digit c \<and> 0 < c" by blast
    from micro_step_checker_C4_pos [OF pos(2)] obtain r2 where
      r2: "micro_step_checker_C4 (3 * a + 1) = Inr r2"
          "\<forall>c. r2 = Some c \<longrightarrow> \<not> in_C4_by_last_digit c \<and> 0 < c" by blast
    show ?thesis
    proof (cases r1)
      case None
      with False r1 r2 have "check_macro_from a = Inr r2"
        by (subst check_macro_from.simps) simp
      with r2(2) show ?thesis by auto
    next
      case (Some c1)
      with False r1 have "check_macro_from a = Inr (Some c1)"
        by (subst check_macro_from.simps) simp
      with r1(2) Some show ?thesis by auto
    qed
  qed
qed

lemma F4_macro_pos:
  assumes "0 < n"
  shows "\<exists>v. F4_macro n = Inr v \<and> 4 \<le> v"
proof -
  define a where "a = odd_val n"
  define b where "b = odd_val (3 * a + 1)"
  define c where "c = odd_val (3 * b + 1)"
  have a: "0 < a" "odd_part n = Inr a" using odd_part_pos(1,5) [OF assms] by (simp_all add: a_def)
  then have "0 < 3 * a + 1" by simp
  then have b: "0 < b" "odd_part (3 * a + 1) = Inr b"
    using odd_part_pos(1,5) by (simp_all add: b_def)
  then have "0 < 3 * b + 1" by simp
  then have c: "0 < c" "odd_part (3 * b + 1) = Inr c"
    using odd_part_pos(1,5) by (simp_all add: c_def)
  have "F4_macro n = Inr (3 * c + 1)" using a(2) b(2) c(2) by (simp add: F4_macro_def)
  moreover have "4 \<le> 3 * c + 1" using c(1) by simp
  ultimately show ?thesis by blast
qed

lemma E4_loop_pos:
  "0 < fk \<Longrightarrow>
     E4_loop k fk = Inl RuntimeError
     \<or> (\<exists>c. E4_loop k fk = Inr c \<and> \<not> in_C4_by_last_digit c \<and> 0 \<le> c \<and> (2 \<le> fk \<longrightarrow> 0 < c))"
proof (induction k arbitrary: fk)
  case 0
  then show ?case by simp
next
  case (Suc k)
  have "0 \<le> fk div 2" using Suc.prems by simp
  from check_macro_from_nonneg [OF this] obtain res where
    res: "check_macro_from (fk div 2) = Inr res"
         "\<forall>c. res = Some c \<longrightarrow> \<not> in_C4_by_last_digit c \<and> 0 \<le> c \<and> (0 < fk div 2 \<longrightarrow> 0 < c)"
    by blast
  show ?case
  proof (cases res)
    case (Some c)
    with res(1) have "E4_loop (Suc k) fk = Inr c"
      by (simp add: check_macro_internal_for_leaving_C4_def)
    moreover have "2 \<le> fk \<longrightarrow> 0 < fk div 2" by presburger
    ultimately show ?thesis using res(2) Some by auto
  next
    case None
    from F4_macro_pos [OF Suc.prems] obtain v where v: "F4_macro fk = Inr v" "4 \<le> v" by blast
    with None res(1) have eq: "E4_loop (Suc k) fk = E4_loop k v"
      by (simp add: check_macro_internal_for_leaving_C4_def)
    have "0 < v" "2 \<le> v" using v(2) by simp_all
    from Suc.IH [OF this(1)] this(2) eq show ?thesis by auto
  qed
qed

lemma E4_exit_pos:
  assumes "0 < n"
  shows "E4_exit n = Inl RuntimeError
     \<or> (\<exists>c. E4_exit n = Inr c \<and> \<not> in_C4_by_last_digit c \<and> 0 \<le> c \<and> (2 \<le> n \<longrightarrow> 0 < c))"
  using E4_loop_pos [OF assms, of "E4_UB n + 1"] assms by (simp add: E4_exit_def)

section \<open>Last digits and signs of the exit values\<close>

lemma E0_exit_mod10:
  assumes "0 < n" "n mod 10 = 0"
  shows "\<exists>v. E0_exit n = Inr v \<and> v mod 10 = 5 \<and> 0 < v"
proof -
  have k: "0 < n div 10" using assms by presburger
  have e: "E0_exit n = Inr (5 * odd_val (n div 10))"
    using assms(2) odd_part_pos(1) [OF k] by (simp add: E0_exit_def)
  have "odd (odd_val (n div 10))" by (rule odd_part_pos(3) [OF k])
  then obtain s where s: "odd_val (n div 10) = 2 * s + 1" by (elim oddE)
  have "(5 * (2 * s + 1)) mod 10 = 5" by presburger
  then have "(5 * odd_val (n div 10)) mod 10 = 5" unfolding s .
  moreover have "0 < 5 * odd_val (n div 10)" using odd_part_pos(5) [OF k] by simp
  ultimately show ?thesis using e by blast
qed








lemma E6_exit_5: "E6_exit 5 = Inr 26"
  by code_simp


section \<open>Claims about the scans of the 4- and 6-components\<close>

text \<open>
  The components of the data model are the classes of the last decimal digit, the ones
  the router dispatches on: the component 0 is owned by \<open>E0_exit\<close>, 4 by \<open>E4_exit\<close>,
  6 by \<open>E6_exit\<close> and 8 by \<open>E8_exit\<close>. The residue set \<open>C6\<close> that the scan of
  \<open>E6_exit\<close> tests is not one of these classes: it also holds 0, 3 and 5 modulo 20, which
  lie in the component 0 and in the odd components. On that larger set the scan gives
  no such guarantee, as the next remark records: 5 and \<open>E6_exit 5 = 26\<close> are both in
  \<open>C6\<close>. The input 5 has last digit 5, so it is not in the component 6.
\<close>

lemma E6_exit_residue_set_remark:
  "in_residue_set_mod20 5 C6 \<and> E6_exit 5 = Inr 26 \<and> in_residue_set_mod20 26 C6
     \<and> (5::int) mod 10 \<noteq> 6"
  using E6_exit_5 by (simp add: in_residue_set_mod20_def C6_def)



text \<open>
  Claim C1 says the cap of \<open>E4_exit\<close> is the bit length of \<open>3 * n0 + 2\<close> plus its
  2-adic valuation. The code takes the bit length alone: at \<open>n0 = 14\<close> the cap is 6,
  where bit length plus valuation is \<open>6 + 2\<close>, and the scan has \<open>6 + 1\<close> iterations.
\<close>

theorem E4_exit_cap_at_14:
  "E4_UB 14 = 6 \<and> bit_length (3 * 14 + 2) = 6 \<and> nu2 (3 * 14 + 2) = Inr 2
     \<and> E4_exit 14 = E4_loop (6 + 1) 14"
proof -
  have 1: "E4_UB 14 = 6" by code_simp
  have 2: "bit_length (3 * 14 + 2) = 6" by code_simp
  have 3: "nu2 (3 * 14 + 2) = Inr 2" by code_simp
  have 4: "E4_exit 14 = E4_loop (6 + 1) 14" using 1 by (simp add: E4_exit_def)
  show ?thesis using 1 2 3 4 by blast
qed

section \<open>Positivity along the router and the hub\<close>

lemma E6_loop_ge4:
  "4 \<le> fk \<Longrightarrow> \<exists>y. E6_loop b fk = Inr y \<and> 4 \<le> y"
proof (induction b arbitrary: fk)
  case 0
  then show ?case by simp
next
  case (Suc b)
  show ?case
  proof (cases "in_residue_set_mod20 fk C6")
    case False
    with Suc.prems show ?thesis by simp
  next
    case True
    have "0 \<le> fk" using Suc.prems by simp
    from F6_macro_nonneg [OF this] have
      F: "F6_macro fk = Inr (3 * odd_val (3 * fk + 2) + 1)" "0 < 3 * odd_val (3 * fk + 2) + 1"
      by simp_all
    have "0 < 3 * fk + 2" using Suc.prems by simp
    then have "0 < odd_val (3 * fk + 2)" by (rule odd_part_pos(5))
    then have "4 \<le> 3 * odd_val (3 * fk + 2) + 1" by simp
    from Suc.IH [OF this] True F(1) show ?thesis by simp
  qed
qed

lemma E6_exit_ge4:
  assumes "4 \<le> n"
  shows "\<exists>v. E6_exit n = Inr v \<and> 2 \<le> v"
proof (cases "in_residue_set_mod20 n C6")
  case False
  have "2 \<le> n div 2" using assms by simp
  with False show ?thesis by (simp add: E6_exit_def)
next
  case True
  from E6_loop_ge4 [OF assms, of "bit_length (3 * n + 2)"] obtain y where
    y: "E6_loop (bit_length (3 * n + 2)) n = Inr y" "4 \<le> y" by blast
  have "2 \<le> y div 2" using y(2) by simp
  with True y(1) show ?thesis by (simp add: E6_exit_def Let_def)
qed

lemma E6_exit_0: "E6_exit 0 = Inr 2"
  by code_simp

lemma E6_exit_3: "E6_exit 3 = Inr 17"
  by code_simp

lemma E6_exit_after_E4:
  assumes "0 \<le> a" "a \<noteq> 1" "\<not> in_C4_by_last_digit a"
  shows "\<exists>v. E6_exit a = Inr v \<and> 2 \<le> v"
proof -
  have "a \<noteq> 2" using assms(3) by (auto simp: in_C4_by_last_digit_def)
  with assms(1,2) have "a = 0 \<or> a = 3 \<or> 4 \<le> a" by arith
  then show ?thesis using E6_exit_0 E6_exit_3 E6_exit_ge4 by auto
qed

lemma E8_exit_pos:
  assumes "2 \<le> n"
  shows "\<exists>v. E8_exit n = Inr v \<and> 0 < v"
proof (cases "(n - 18) mod 20 = 0")
  case False
  have "0 < n div 2" using assms by simp
  with False show ?thesis by (simp add: E8_exit_def)
next
  case True
  have p: "0 < n" using assms by simp
  have m18: "n mod 20 = 18"
  proof -
    have "n mod 20 = ((n - 18) + 18) mod 20" by simp
    also have "\<dots> = ((n - 18) mod 20 + 18) mod 20" by (simp only: mod_add_left_eq)
    also have "\<dots> = 18" unfolding True by simp
    finally show ?thesis .
  qed
  let ?m = "(n + 2) div 20"
  define q where "q = 3 ^ (nu2_val ?m + 1) * odd_val ?m"
  have m: "0 < ?m" by (rule E8_exit_18_mod(2) [OF p m18])
  have "0 < odd_val ?m" by (rule odd_part_pos(5) [OF m])
  then have "0 < q" unfolding q_def by simp
  then have q: "0 < 5 * q - 1" by arith
  have "(10 * 3 ^ (nu2_val ?m + 1) * odd_val ?m - 2) = 2 * (5 * q - 1)"
    unfolding q_def by (simp only: mult.assoc) simp
  then have "(10 * 3 ^ (nu2_val ?m + 1) * odd_val ?m - 2) div 2 = 5 * q - 1" by simp
  then show ?thesis using q E8_exit_18_mod(1) [OF p m18] by simp
qed

lemma router_step_pos:
  assumes "10 \<le> n"
  shows "router_step n = Inl RuntimeError \<or> (\<exists>v. router_step n = Inr v \<and> 0 < v)"
proof -
  have p: "0 < n" "2 \<le> n" "4 \<le> n" using assms by simp_all
  have "0 \<le> n mod 10" "n mod 10 < 10" by simp_all
  then have "n mod 10 = 0 \<or> n mod 10 \<in> {1, 3, 5, 7, 9} \<or> n mod 10 = 2 \<or> n mod 10 = 4
      \<or> n mod 10 = 6 \<or> n mod 10 = 8" by (simp only: insert_iff empty_iff) arith
  then show ?thesis
  proof (elim disjE)
    assume 1: "n mod 10 = 0"
    then show ?thesis using E0_exit_mod10 [OF p(1) 1] by (auto simp: router_step_def)
  next
    assume "n mod 10 \<in> {1, 3, 5, 7, 9}"
    then show ?thesis using p(1) by (auto simp: router_step_def)
  next
    assume 3: "n mod 10 = 2"
    have "0 < n div 2" using p(2) by simp
    with 3 show ?thesis by (simp add: router_step_def)
  next
    assume "n mod 10 = 4"
    then show ?thesis using E4_exit_pos [OF p(1)] p(2) by (auto simp: router_step_def)
  next
    assume 5: "n mod 10 = 6"
    from E6_exit_ge4 [OF p(3)] obtain v where "E6_exit n = Inr v" "2 \<le> v" by blast
    with 5 show ?thesis by (simp add: router_step_def)
  next
    assume "n mod 10 = 8"
    then show ?thesis using E8_exit_pos [OF p(2)] by (auto simp: router_step_def)
  qed
qed

lemma solve_loop_no_ValueError:
  assumes "solve_loop n = Some r"
  shows "0 < n \<longrightarrow> r \<noteq> Inl ValueError"
proof (rule solve_loop.raw_induct [of "\<lambda>n r. 0 < n \<longrightarrow> r \<noteq> Inl ValueError" n r])
  show "solve_loop n = Some r" by (rule assms)
next
  fix f :: "int \<Rightarrow> (error + int) option" and n :: int and r :: "error + int"
  assume IH: "\<And>x y. f x = Some y \<Longrightarrow> 0 < x \<longrightarrow> y \<noteq> Inl ValueError"
    and prem: "(if 10 \<le> n
      then case router_step n of Inl e \<Rightarrow> Some (Inl e) | Inr n' \<Rightarrow> f n'
      else Some (Inr 1)) = Some r"
  show "0 < n \<longrightarrow> r \<noteq> Inl ValueError"
  proof (cases "10 \<le> n")
    case False
    with prem show ?thesis by auto
  next
    case True
    from router_step_pos [OF True] show ?thesis
    proof
      assume "router_step n = Inl RuntimeError"
      with True prem show ?thesis by auto
    next
      assume "\<exists>v. router_step n = Inr v \<and> 0 < v"
      then obtain v where v: "router_step n = Inr v" "0 < v" by blast
      with True prem have "f v = Some r" by simp
      from IH [OF this] v(2) show ?thesis by simp
    qed
  qed
qed

lemma solve_C4_hub_no_ValueError:
  assumes "solve_C4_hub n = Some r"
  shows "0 < n \<longrightarrow> r \<noteq> Inl ValueError"
proof (rule solve_C4_hub.raw_induct [of "\<lambda>n r. 0 < n \<longrightarrow> r \<noteq> Inl ValueError" n r])
  show "solve_C4_hub n = Some r" by (rule assms)
next
  fix f :: "int \<Rightarrow> (error + int) option" and n :: int and r :: "error + int"
  assume IH: "\<And>x y. f x = Some y \<Longrightarrow> 0 < x \<longrightarrow> y \<noteq> Inl ValueError"
    and prem: "(case E4_exit n of Inl e \<Rightarrow> Some (Inl e)
      | Inr a \<Rightarrow>
          if a = 1 then Some (Inr 1)
          else case E6_exit a of Inl e \<Rightarrow> Some (Inl e)
               | Inr b \<Rightarrow>
                   case E8_exit b of Inl e \<Rightarrow> Some (Inl e)
                   | Inr n' \<Rightarrow> f n') = Some r"
  show "0 < n \<longrightarrow> r \<noteq> Inl ValueError"
  proof
    assume n: "0 < n"
    from E4_exit_pos [OF n] show "r \<noteq> Inl ValueError"
    proof
      assume "E4_exit n = Inl RuntimeError"
      with prem show ?thesis by auto
    next
      assume "\<exists>c. E4_exit n = Inr c \<and> \<not> in_C4_by_last_digit c \<and> 0 \<le> c \<and> (2 \<le> n \<longrightarrow> 0 < c)"
      then obtain a where a: "E4_exit n = Inr a" "\<not> in_C4_by_last_digit a" "0 \<le> a" by blast
      show ?thesis
      proof (cases "a = 1")
        case True
        with a(1) prem show ?thesis by auto
      next
        case False
        from E6_exit_after_E4 [OF a(3) False a(2)] obtain b where
          b: "E6_exit a = Inr b" "2 \<le> b" by blast
        from E8_exit_pos [OF b(2)] obtain n' where n': "E8_exit b = Inr n'" "0 < n'" by blast
        from a(1) False b(1) n'(1) prem have "f n' = Some r" by simp
        from IH [OF this] n'(2) show ?thesis by simp
      qed
    qed
  qed
qed

section \<open>Claims about the errors raised\<close>

text \<open>
  Claim C8: \<open>nu2\<close>, \<open>E4_exit\<close>, \<open>reduced_collatz_solver\<close> and \<open>solve_C4_hub\<close>
  raise \<open>ValueError\<close> exactly when called with \<open>n \<le> 0\<close>; the exception is the
  result of the call, nothing catches it.
\<close>

theorem ValueError_iff_nonpositive:
  "(nu2 n = Inl ValueError \<longleftrightarrow> n \<le> 0)
   \<and> (E4_exit n = Inl ValueError \<longleftrightarrow> n \<le> 0)
   \<and> (reduced_collatz_solver n = Some (Inl ValueError) \<longleftrightarrow> n \<le> 0)
   \<and> (solve_C4_hub n = Some (Inl ValueError) \<longleftrightarrow> n \<le> 0)"
proof -
  have 1: "nu2 n = Inl ValueError \<longleftrightarrow> n \<le> 0" by (simp add: nu2_def)
  have 2: "E4_exit n = Inl ValueError \<longleftrightarrow> n \<le> 0"
  proof (cases "n \<le> 0")
    case True
    then show ?thesis by (simp add: E4_exit_def)
  next
    case False
    then have "0 < n" by simp
    from E4_exit_pos [OF this] False show ?thesis by auto
  qed
  have 3: "reduced_collatz_solver n = Some (Inl ValueError) \<longleftrightarrow> n \<le> 0"
  proof (cases "n \<le> 0")
    case True
    then show ?thesis by (simp add: reduced_collatz_solver_def)
  next
    case False
    then have p: "0 < n" by simp
    have "solve_loop n \<noteq> Some (Inl ValueError)"
      using solve_loop_no_ValueError [of n "Inl ValueError"] p by blast
    with False show ?thesis by (simp add: reduced_collatz_solver_def)
  qed
  have 4: "solve_C4_hub n = Some (Inl ValueError) \<longleftrightarrow> n \<le> 0"
  proof (cases "n \<le> 0")
    case True
    then have "E4_exit n = Inl ValueError" by (simp add: E4_exit_def)
    then have "solve_C4_hub n = Some (Inl ValueError)"
      by (subst solve_C4_hub.simps) simp
    with True show ?thesis by simp
  next
    case False
    then have p: "0 < n" by simp
    have "solve_C4_hub n \<noteq> Some (Inl ValueError)"
      using solve_C4_hub_no_ValueError [of n "Inl ValueError"] p by blast
    with False show ?thesis by simp
  qed
  show ?thesis using 1 2 3 4 by blast
qed

theorem ValueError_iff_nonpositive_witness:
  "nu2 (- 3) = Inl ValueError \<and> E4_exit (- 3) = Inl ValueError
   \<and> reduced_collatz_solver (- 3) = Some (Inl ValueError)
   \<and> solve_C4_hub (- 3) = Some (Inl ValueError)
   \<and> nu2 5 \<noteq> Inl ValueError \<and> E4_exit 5 \<noteq> Inl ValueError
   \<and> reduced_collatz_solver 5 \<noteq> Some (Inl ValueError)
   \<and> solve_C4_hub 5 \<noteq> Some (Inl ValueError)"
  using ValueError_iff_nonpositive [of "- 3"] ValueError_iff_nonpositive [of 5] by simp

section \<open>The solver and brute force on 1 to 10000\<close>

lemma solve_loop_small: "n < 10 \<Longrightarrow> solve_loop n = Some (Inr 1)"
  by (simp add: solve_loop.simps)

lemma reaches_below_sound:
  assumes "\<forall>m. m < n \<longrightarrow> solve_loop m = Some (Inr 1)" and "10 \<le> n"
  shows "reaches_below k n x \<Longrightarrow> solve_loop x = Some (Inr 1)"
proof (induction k arbitrary: x)
  case 0
  then show ?case by simp
next
  case (Suc k)
  show ?case
  proof (cases "x < n")
    case True
    with assms(1) show ?thesis by simp
  next
    case False
    with assms(2) have x: "10 \<le> x" by simp
    from Suc.prems False obtain x' where
      r: "router_step x = Inr x'" and b: "reaches_below k n x'"
      by (auto split: sum.splits)
    from Suc.IH [OF b] have "solve_loop x' = Some (Inr 1)" .
    with x r show ?thesis by (subst solve_loop.simps) simp
  qed
qed

lemma descends_sound:
  assumes "\<forall>m. m < n \<longrightarrow> solve_loop m = Some (Inr 1)" and "10 \<le> n" and "descends n"
  shows "solve_loop n = Some (Inr 1)"
proof -
  from assms(3) obtain x where
    r: "router_step n = Inr x" and b: "reaches_below 30 n x"
    by (auto simp: descends_def split: sum.splits)
  from reaches_below_sound [OF assms(1,2) b] have "solve_loop x = Some (Inr 1)" .
  with assms(2) r show ?thesis by (subst solve_loop.simps) simp
qed

lemma T_below_sound:
  assumes "\<forall>m. 1 \<le> m \<and> m < n \<longrightarrow> brute_force m = Some 1"
  shows "T_below k n x \<Longrightarrow> brute_force x = Some 1"
proof (induction k arbitrary: x)
  case 0
  then show ?case by simp
next
  case (Suc k)
  show ?case
  proof (cases "1 \<le> x \<and> x < n")
    case True
    with assms show ?thesis by simp
  next
    case False
    with Suc.prems have "T_below k n (T x)" by simp
    from Suc.IH [OF this] have "brute_force (T x) = Some 1" .
    then show ?thesis by (subst brute_force.simps) simp
  qed
qed

lemma T_descends_sound:
  assumes "\<forall>m. 1 \<le> m \<and> m < n \<longrightarrow> brute_force m = Some 1" and "T_descends n"
  shows "brute_force n = Some 1"
proof -
  from assms(2) have "T_below 300 n (T n)" by (simp add: T_descends_def)
  from T_below_sound [OF assms(1) this] have "brute_force (T n) = Some 1" .
  then show ?thesis by (subst brute_force.simps) simp
qed

lemma T_descends_even:
  assumes "2 \<le> n" and "n mod 2 = 0"
  shows "T_descends n"
proof -
  have t: "T n = n div 2" using assms(2) by (simp add: T_def)
  have h: "1 \<le> n div 2 \<and> n div 2 < n" using assms by presburger
  have "T_below (Suc 299) n (n div 2)" by (subst T_below.simps) (use h in simp)
  then show ?thesis by (simp add: T_descends_def t)
qed

lemma range_extend:
  assumes "\<forall>n::int. a \<le> n \<and> n < b \<longrightarrow> P n" and "list_all P [b..c]" and "c + 1 = d"
  shows "\<forall>n. a \<le> n \<and> n < d \<longrightarrow> P n"
proof (intro allI impI)
  fix n assume n: "a \<le> n \<and> n < d"
  show "P n"
  proof (cases "n < b")
    case True
    with assms(1) n show ?thesis by simp
  next
    case False
    with n assms(3) have "n \<in> set [b..c]" by simp
    with assms(2) show ?thesis by (simp add: list_all_iff)
  qed
qed

lemma descends_from_10: "\<forall>n::int. 10 \<le> n \<and> n < 10 \<longrightarrow> descends n"
  by auto

lemma descends_chunk_1: "list_all descends [10..259]"
  by code_simp

lemma descends_below_260: "\<forall>n::int. 10 \<le> n \<and> n < 260 \<longrightarrow> descends n"
  by (rule range_extend [OF descends_from_10 descends_chunk_1]) simp

lemma descends_chunk_2: "list_all descends [260..509]"
  by code_simp

lemma descends_below_510: "\<forall>n::int. 10 \<le> n \<and> n < 510 \<longrightarrow> descends n"
  by (rule range_extend [OF descends_below_260 descends_chunk_2]) simp

lemma descends_chunk_3: "list_all descends [510..759]"
  by code_simp

lemma descends_below_760: "\<forall>n::int. 10 \<le> n \<and> n < 760 \<longrightarrow> descends n"
  by (rule range_extend [OF descends_below_510 descends_chunk_3]) simp

lemma descends_chunk_4: "list_all descends [760..1009]"
  by code_simp

lemma descends_below_1010: "\<forall>n::int. 10 \<le> n \<and> n < 1010 \<longrightarrow> descends n"
  by (rule range_extend [OF descends_below_760 descends_chunk_4]) simp

lemma descends_chunk_5: "list_all descends [1010..1259]"
  by code_simp

lemma descends_below_1260: "\<forall>n::int. 10 \<le> n \<and> n < 1260 \<longrightarrow> descends n"
  by (rule range_extend [OF descends_below_1010 descends_chunk_5]) simp

lemma descends_chunk_6: "list_all descends [1260..1509]"
  by code_simp

lemma descends_below_1510: "\<forall>n::int. 10 \<le> n \<and> n < 1510 \<longrightarrow> descends n"
  by (rule range_extend [OF descends_below_1260 descends_chunk_6]) simp

lemma descends_chunk_7: "list_all descends [1510..1759]"
  by code_simp

lemma descends_below_1760: "\<forall>n::int. 10 \<le> n \<and> n < 1760 \<longrightarrow> descends n"
  by (rule range_extend [OF descends_below_1510 descends_chunk_7]) simp

lemma descends_chunk_8: "list_all descends [1760..2009]"
  by code_simp

lemma descends_below_2010: "\<forall>n::int. 10 \<le> n \<and> n < 2010 \<longrightarrow> descends n"
  by (rule range_extend [OF descends_below_1760 descends_chunk_8]) simp

lemma descends_chunk_9: "list_all descends [2010..2259]"
  by code_simp

lemma descends_below_2260: "\<forall>n::int. 10 \<le> n \<and> n < 2260 \<longrightarrow> descends n"
  by (rule range_extend [OF descends_below_2010 descends_chunk_9]) simp

lemma descends_chunk_10: "list_all descends [2260..2509]"
  by code_simp

lemma descends_below_2510: "\<forall>n::int. 10 \<le> n \<and> n < 2510 \<longrightarrow> descends n"
  by (rule range_extend [OF descends_below_2260 descends_chunk_10]) simp

lemma descends_chunk_11: "list_all descends [2510..2759]"
  by code_simp

lemma descends_below_2760: "\<forall>n::int. 10 \<le> n \<and> n < 2760 \<longrightarrow> descends n"
  by (rule range_extend [OF descends_below_2510 descends_chunk_11]) simp

lemma descends_chunk_12: "list_all descends [2760..3009]"
  by code_simp

lemma descends_below_3010: "\<forall>n::int. 10 \<le> n \<and> n < 3010 \<longrightarrow> descends n"
  by (rule range_extend [OF descends_below_2760 descends_chunk_12]) simp

lemma descends_chunk_13: "list_all descends [3010..3259]"
  by code_simp

lemma descends_below_3260: "\<forall>n::int. 10 \<le> n \<and> n < 3260 \<longrightarrow> descends n"
  by (rule range_extend [OF descends_below_3010 descends_chunk_13]) simp

lemma descends_chunk_14: "list_all descends [3260..3509]"
  by code_simp

lemma descends_below_3510: "\<forall>n::int. 10 \<le> n \<and> n < 3510 \<longrightarrow> descends n"
  by (rule range_extend [OF descends_below_3260 descends_chunk_14]) simp

lemma descends_chunk_15: "list_all descends [3510..3759]"
  by code_simp

lemma descends_below_3760: "\<forall>n::int. 10 \<le> n \<and> n < 3760 \<longrightarrow> descends n"
  by (rule range_extend [OF descends_below_3510 descends_chunk_15]) simp

lemma descends_chunk_16: "list_all descends [3760..4009]"
  by code_simp

lemma descends_below_4010: "\<forall>n::int. 10 \<le> n \<and> n < 4010 \<longrightarrow> descends n"
  by (rule range_extend [OF descends_below_3760 descends_chunk_16]) simp

lemma descends_chunk_17: "list_all descends [4010..4259]"
  by code_simp

lemma descends_below_4260: "\<forall>n::int. 10 \<le> n \<and> n < 4260 \<longrightarrow> descends n"
  by (rule range_extend [OF descends_below_4010 descends_chunk_17]) simp

lemma descends_chunk_18: "list_all descends [4260..4509]"
  by code_simp

lemma descends_below_4510: "\<forall>n::int. 10 \<le> n \<and> n < 4510 \<longrightarrow> descends n"
  by (rule range_extend [OF descends_below_4260 descends_chunk_18]) simp

lemma descends_chunk_19: "list_all descends [4510..4759]"
  by code_simp

lemma descends_below_4760: "\<forall>n::int. 10 \<le> n \<and> n < 4760 \<longrightarrow> descends n"
  by (rule range_extend [OF descends_below_4510 descends_chunk_19]) simp

lemma descends_chunk_20: "list_all descends [4760..5009]"
  by code_simp

lemma descends_below_5010: "\<forall>n::int. 10 \<le> n \<and> n < 5010 \<longrightarrow> descends n"
  by (rule range_extend [OF descends_below_4760 descends_chunk_20]) simp

lemma descends_chunk_21: "list_all descends [5010..5259]"
  by code_simp

lemma descends_below_5260: "\<forall>n::int. 10 \<le> n \<and> n < 5260 \<longrightarrow> descends n"
  by (rule range_extend [OF descends_below_5010 descends_chunk_21]) simp

lemma descends_chunk_22: "list_all descends [5260..5509]"
  by code_simp

lemma descends_below_5510: "\<forall>n::int. 10 \<le> n \<and> n < 5510 \<longrightarrow> descends n"
  by (rule range_extend [OF descends_below_5260 descends_chunk_22]) simp

lemma descends_chunk_23: "list_all descends [5510..5759]"
  by code_simp

lemma descends_below_5760: "\<forall>n::int. 10 \<le> n \<and> n < 5760 \<longrightarrow> descends n"
  by (rule range_extend [OF descends_below_5510 descends_chunk_23]) simp

lemma descends_chunk_24: "list_all descends [5760..6009]"
  by code_simp

lemma descends_below_6010: "\<forall>n::int. 10 \<le> n \<and> n < 6010 \<longrightarrow> descends n"
  by (rule range_extend [OF descends_below_5760 descends_chunk_24]) simp

lemma descends_chunk_25: "list_all descends [6010..6259]"
  by code_simp

lemma descends_below_6260: "\<forall>n::int. 10 \<le> n \<and> n < 6260 \<longrightarrow> descends n"
  by (rule range_extend [OF descends_below_6010 descends_chunk_25]) simp

lemma descends_chunk_26: "list_all descends [6260..6509]"
  by code_simp

lemma descends_below_6510: "\<forall>n::int. 10 \<le> n \<and> n < 6510 \<longrightarrow> descends n"
  by (rule range_extend [OF descends_below_6260 descends_chunk_26]) simp

lemma descends_chunk_27: "list_all descends [6510..6759]"
  by code_simp

lemma descends_below_6760: "\<forall>n::int. 10 \<le> n \<and> n < 6760 \<longrightarrow> descends n"
  by (rule range_extend [OF descends_below_6510 descends_chunk_27]) simp

lemma descends_chunk_28: "list_all descends [6760..7009]"
  by code_simp

lemma descends_below_7010: "\<forall>n::int. 10 \<le> n \<and> n < 7010 \<longrightarrow> descends n"
  by (rule range_extend [OF descends_below_6760 descends_chunk_28]) simp

lemma descends_chunk_29: "list_all descends [7010..7259]"
  by code_simp

lemma descends_below_7260: "\<forall>n::int. 10 \<le> n \<and> n < 7260 \<longrightarrow> descends n"
  by (rule range_extend [OF descends_below_7010 descends_chunk_29]) simp

lemma descends_chunk_30: "list_all descends [7260..7509]"
  by code_simp

lemma descends_below_7510: "\<forall>n::int. 10 \<le> n \<and> n < 7510 \<longrightarrow> descends n"
  by (rule range_extend [OF descends_below_7260 descends_chunk_30]) simp

lemma descends_chunk_31: "list_all descends [7510..7759]"
  by code_simp

lemma descends_below_7760: "\<forall>n::int. 10 \<le> n \<and> n < 7760 \<longrightarrow> descends n"
  by (rule range_extend [OF descends_below_7510 descends_chunk_31]) simp

lemma descends_chunk_32: "list_all descends [7760..8009]"
  by code_simp

lemma descends_below_8010: "\<forall>n::int. 10 \<le> n \<and> n < 8010 \<longrightarrow> descends n"
  by (rule range_extend [OF descends_below_7760 descends_chunk_32]) simp

lemma descends_chunk_33: "list_all descends [8010..8259]"
  by code_simp

lemma descends_below_8260: "\<forall>n::int. 10 \<le> n \<and> n < 8260 \<longrightarrow> descends n"
  by (rule range_extend [OF descends_below_8010 descends_chunk_33]) simp

lemma descends_chunk_34: "list_all descends [8260..8509]"
  by code_simp

lemma descends_below_8510: "\<forall>n::int. 10 \<le> n \<and> n < 8510 \<longrightarrow> descends n"
  by (rule range_extend [OF descends_below_8260 descends_chunk_34]) simp

lemma descends_chunk_35: "list_all descends [8510..8759]"
  by code_simp

lemma descends_below_8760: "\<forall>n::int. 10 \<le> n \<and> n < 8760 \<longrightarrow> descends n"
  by (rule range_extend [OF descends_below_8510 descends_chunk_35]) simp

lemma descends_chunk_36: "list_all descends [8760..9009]"
  by code_simp

lemma descends_below_9010: "\<forall>n::int. 10 \<le> n \<and> n < 9010 \<longrightarrow> descends n"
  by (rule range_extend [OF descends_below_8760 descends_chunk_36]) simp

lemma descends_chunk_37: "list_all descends [9010..9259]"
  by code_simp

lemma descends_below_9260: "\<forall>n::int. 10 \<le> n \<and> n < 9260 \<longrightarrow> descends n"
  by (rule range_extend [OF descends_below_9010 descends_chunk_37]) simp

lemma descends_chunk_38: "list_all descends [9260..9509]"
  by code_simp

lemma descends_below_9510: "\<forall>n::int. 10 \<le> n \<and> n < 9510 \<longrightarrow> descends n"
  by (rule range_extend [OF descends_below_9260 descends_chunk_38]) simp

lemma descends_chunk_39: "list_all descends [9510..9759]"
  by code_simp

lemma descends_below_9760: "\<forall>n::int. 10 \<le> n \<and> n < 9760 \<longrightarrow> descends n"
  by (rule range_extend [OF descends_below_9510 descends_chunk_39]) simp

lemma descends_chunk_40: "list_all descends [9760..10000]"
  by code_simp

lemma descends_below_10001: "\<forall>n::int. 10 \<le> n \<and> n < 10001 \<longrightarrow> descends n"
  by (rule range_extend [OF descends_below_9760 descends_chunk_40]) simp

lemma T_descends_from_1: "\<forall>i::int. 1 \<le> i \<and> i < 1 \<longrightarrow> T_descends (2 * i + 1)"
  by auto

lemma T_descends_chunk_1: "list_all (\<lambda>i. T_descends (2 * i + 1)) [1..250]"
  by code_simp

lemma T_descends_below_251: "\<forall>i::int. 1 \<le> i \<and> i < 251 \<longrightarrow> T_descends (2 * i + 1)"
  by (rule range_extend [OF T_descends_from_1 T_descends_chunk_1]) simp

lemma T_descends_chunk_2: "list_all (\<lambda>i. T_descends (2 * i + 1)) [251..500]"
  by code_simp

lemma T_descends_below_501: "\<forall>i::int. 1 \<le> i \<and> i < 501 \<longrightarrow> T_descends (2 * i + 1)"
  by (rule range_extend [OF T_descends_below_251 T_descends_chunk_2]) simp

lemma T_descends_chunk_3: "list_all (\<lambda>i. T_descends (2 * i + 1)) [501..750]"
  by code_simp

lemma T_descends_below_751: "\<forall>i::int. 1 \<le> i \<and> i < 751 \<longrightarrow> T_descends (2 * i + 1)"
  by (rule range_extend [OF T_descends_below_501 T_descends_chunk_3]) simp

lemma T_descends_chunk_4: "list_all (\<lambda>i. T_descends (2 * i + 1)) [751..1000]"
  by code_simp

lemma T_descends_below_1001: "\<forall>i::int. 1 \<le> i \<and> i < 1001 \<longrightarrow> T_descends (2 * i + 1)"
  by (rule range_extend [OF T_descends_below_751 T_descends_chunk_4]) simp

lemma T_descends_chunk_5: "list_all (\<lambda>i. T_descends (2 * i + 1)) [1001..1250]"
  by code_simp

lemma T_descends_below_1251: "\<forall>i::int. 1 \<le> i \<and> i < 1251 \<longrightarrow> T_descends (2 * i + 1)"
  by (rule range_extend [OF T_descends_below_1001 T_descends_chunk_5]) simp

lemma T_descends_chunk_6: "list_all (\<lambda>i. T_descends (2 * i + 1)) [1251..1500]"
  by code_simp

lemma T_descends_below_1501: "\<forall>i::int. 1 \<le> i \<and> i < 1501 \<longrightarrow> T_descends (2 * i + 1)"
  by (rule range_extend [OF T_descends_below_1251 T_descends_chunk_6]) simp

lemma T_descends_chunk_7: "list_all (\<lambda>i. T_descends (2 * i + 1)) [1501..1750]"
  by code_simp

lemma T_descends_below_1751: "\<forall>i::int. 1 \<le> i \<and> i < 1751 \<longrightarrow> T_descends (2 * i + 1)"
  by (rule range_extend [OF T_descends_below_1501 T_descends_chunk_7]) simp

lemma T_descends_chunk_8: "list_all (\<lambda>i. T_descends (2 * i + 1)) [1751..2000]"
  by code_simp

lemma T_descends_below_2001: "\<forall>i::int. 1 \<le> i \<and> i < 2001 \<longrightarrow> T_descends (2 * i + 1)"
  by (rule range_extend [OF T_descends_below_1751 T_descends_chunk_8]) simp

lemma T_descends_chunk_9: "list_all (\<lambda>i. T_descends (2 * i + 1)) [2001..2250]"
  by code_simp

lemma T_descends_below_2251: "\<forall>i::int. 1 \<le> i \<and> i < 2251 \<longrightarrow> T_descends (2 * i + 1)"
  by (rule range_extend [OF T_descends_below_2001 T_descends_chunk_9]) simp

lemma T_descends_chunk_10: "list_all (\<lambda>i. T_descends (2 * i + 1)) [2251..2500]"
  by code_simp

lemma T_descends_below_2501: "\<forall>i::int. 1 \<le> i \<and> i < 2501 \<longrightarrow> T_descends (2 * i + 1)"
  by (rule range_extend [OF T_descends_below_2251 T_descends_chunk_10]) simp

lemma T_descends_chunk_11: "list_all (\<lambda>i. T_descends (2 * i + 1)) [2501..2750]"
  by code_simp

lemma T_descends_below_2751: "\<forall>i::int. 1 \<le> i \<and> i < 2751 \<longrightarrow> T_descends (2 * i + 1)"
  by (rule range_extend [OF T_descends_below_2501 T_descends_chunk_11]) simp

lemma T_descends_chunk_12: "list_all (\<lambda>i. T_descends (2 * i + 1)) [2751..3000]"
  by code_simp

lemma T_descends_below_3001: "\<forall>i::int. 1 \<le> i \<and> i < 3001 \<longrightarrow> T_descends (2 * i + 1)"
  by (rule range_extend [OF T_descends_below_2751 T_descends_chunk_12]) simp

lemma T_descends_chunk_13: "list_all (\<lambda>i. T_descends (2 * i + 1)) [3001..3250]"
  by code_simp

lemma T_descends_below_3251: "\<forall>i::int. 1 \<le> i \<and> i < 3251 \<longrightarrow> T_descends (2 * i + 1)"
  by (rule range_extend [OF T_descends_below_3001 T_descends_chunk_13]) simp

lemma T_descends_chunk_14: "list_all (\<lambda>i. T_descends (2 * i + 1)) [3251..3500]"
  by code_simp

lemma T_descends_below_3501: "\<forall>i::int. 1 \<le> i \<and> i < 3501 \<longrightarrow> T_descends (2 * i + 1)"
  by (rule range_extend [OF T_descends_below_3251 T_descends_chunk_14]) simp

lemma T_descends_chunk_15: "list_all (\<lambda>i. T_descends (2 * i + 1)) [3501..3750]"
  by code_simp

lemma T_descends_below_3751: "\<forall>i::int. 1 \<le> i \<and> i < 3751 \<longrightarrow> T_descends (2 * i + 1)"
  by (rule range_extend [OF T_descends_below_3501 T_descends_chunk_15]) simp

lemma T_descends_chunk_16: "list_all (\<lambda>i. T_descends (2 * i + 1)) [3751..4000]"
  by code_simp

lemma T_descends_below_4001: "\<forall>i::int. 1 \<le> i \<and> i < 4001 \<longrightarrow> T_descends (2 * i + 1)"
  by (rule range_extend [OF T_descends_below_3751 T_descends_chunk_16]) simp

lemma T_descends_chunk_17: "list_all (\<lambda>i. T_descends (2 * i + 1)) [4001..4250]"
  by code_simp

lemma T_descends_below_4251: "\<forall>i::int. 1 \<le> i \<and> i < 4251 \<longrightarrow> T_descends (2 * i + 1)"
  by (rule range_extend [OF T_descends_below_4001 T_descends_chunk_17]) simp

lemma T_descends_chunk_18: "list_all (\<lambda>i. T_descends (2 * i + 1)) [4251..4500]"
  by code_simp

lemma T_descends_below_4501: "\<forall>i::int. 1 \<le> i \<and> i < 4501 \<longrightarrow> T_descends (2 * i + 1)"
  by (rule range_extend [OF T_descends_below_4251 T_descends_chunk_18]) simp

lemma T_descends_chunk_19: "list_all (\<lambda>i. T_descends (2 * i + 1)) [4501..4750]"
  by code_simp

lemma T_descends_below_4751: "\<forall>i::int. 1 \<le> i \<and> i < 4751 \<longrightarrow> T_descends (2 * i + 1)"
  by (rule range_extend [OF T_descends_below_4501 T_descends_chunk_19]) simp

lemma T_descends_chunk_20: "list_all (\<lambda>i. T_descends (2 * i + 1)) [4751..4999]"
  by code_simp

lemma T_descends_below_5000: "\<forall>i::int. 1 \<le> i \<and> i < 5000 \<longrightarrow> T_descends (2 * i + 1)"
  by (rule range_extend [OF T_descends_below_4751 T_descends_chunk_20]) simp

lemma solve_loop_range: "n < 10001 \<Longrightarrow> solve_loop n = Some (Inr 1)"
proof (induction "nat n" arbitrary: n rule: less_induct)
  case less
  show ?case
  proof (cases "n < 10")
    case True
    then show ?thesis by (rule solve_loop_small)
  next
    case False
    then have n: "10 \<le> n" by simp
    have d: "descends n" using descends_below_10001 n less.prems by simp
    have "\<forall>m. m < n \<longrightarrow> solve_loop m = Some (Inr 1)"
    proof (intro allI impI)
      fix m assume m: "m < n"
      show "solve_loop m = Some (Inr 1)"
      proof (cases "m < 10")
        case True
        then show ?thesis by (rule solve_loop_small)
      next
        case False
        with m n have "nat m < nat n" by simp
        from less.hyps [OF this] m less.prems show ?thesis by simp
      qed
    qed
    from descends_sound [OF this n d] show ?thesis .
  qed
qed

lemma brute_force_range: "1 \<le> n \<Longrightarrow> n < 10001 \<Longrightarrow> brute_force n = Some 1"
proof (induction "nat n" arbitrary: n rule: less_induct)
  case less
  show ?case
  proof (cases "n = 1")
    case True
    then show ?thesis by (subst brute_force.simps) simp
  next
    case False
    with less.prems have n: "2 \<le> n" by simp
    have d: "T_descends n"
    proof (cases "n mod 2 = 0")
      case True
      with n show ?thesis by (rule T_descends_even)
    next
      case False
      define i where "i = n div 2"
      have ni: "n = 2 * i + 1" using False unfolding i_def by presburger
      have "1 \<le> i \<and> i < 5000" using n less.prems(2) ni by simp
      with T_descends_below_5000 have "T_descends (2 * i + 1)" by simp
      with ni show ?thesis by simp
    qed
    have "\<forall>m. 1 \<le> m \<and> m < n \<longrightarrow> brute_force m = Some 1"
    proof (intro allI impI)
      fix m assume m: "1 \<le> m \<and> m < n"
      then have "nat m < nat n" by simp
      from less.hyps [OF this] m less.prems show "brute_force m = Some 1" by simp
    qed
    from T_descends_sound [OF this d] show ?thesis .
  qed
qed

text \<open>
  Claim C7: for every \<open>n\<close> from 1 to 10000 the solver returns 1, and brute-force
  repeated application of the primitive step \<open>T\<close> from \<open>n\<close> reaches 1 as well, so
  the two agree.
\<close>

theorem solver_agrees_with_brute_force:
  "\<forall>n\<in>{1..10000}. reduced_collatz_solver n = Some (Inr 1) \<and> brute_force n = Some 1"
proof
  fix n :: int assume "n \<in> {1..10000}"
  then have n: "1 \<le> n" "n < 10001" by simp_all
  from solve_loop_range [OF n(2)] n(1) have "reduced_collatz_solver n = Some (Inr 1)"
    by (simp add: reduced_collatz_solver_def)
  with brute_force_range [OF n]
  show "reduced_collatz_solver n = Some (Inr 1) \<and> brute_force n = Some 1"
    by simp
qed

theorem solver_agrees_with_brute_force_witness:
  "(27::int) \<in> {1..10000} \<and> reduced_collatz_solver 27 = Some (Inr 1)
     \<and> brute_force 27 = Some 1"
proof -
  have h: "(27::int) \<in> {1..10000}" by simp
  from solver_agrees_with_brute_force h
  have "reduced_collatz_solver 27 = Some (Inr 1) \<and> brute_force 27 = Some 1" by (rule bspec)
  with h show ?thesis by simp
qed

end
